theory Spec2Isabelle
  imports Main "HOL-Library.Multiset"
begin

section \<open>The multi-agent workflow of the notebook "Building a Multi-Agent System"\<close>

text \<open>
  The notebook declares the shared \<open>State\<close>, the structured output of the Client Interface
  Agent and the \<open>orchestrator_node\<close>; the worker and synthesizer nodes are left as exercises.
  The graph engine (\<open>StateGraph\<close>, \<open>Command\<close>, \<open>Send\<close>, \<open>END\<close>, \<open>add_messages\<close>) is imported
  from the \<open>langgraph\<close> package and the message classes from \<open>langchain_core\<close>: neither is
  part of the repository.
\<close>

subsection \<open>Errors\<close>

text \<open>
  \<open>IndexError\<close> and \<open>TypeError\<close> are the Python exceptions the notebook's own code can raise;
  the other constructors are the error taxonomy of the specification of the engine.
\<close>

datatype error =
    IndexError
  | TypeError
  | SchemaError
  | ReducerError
  | DuplicateNodeError
  | UnknownNodeError
  | MalformedDecisionError
  | NodeExecutionError

subsection \<open>Messages\<close>

text \<open>
  A \<open>BaseMessage\<close> carries its content, the class it was built with (\<open>SystemMessage\<close>,
  \<open>HumanMessage\<close>, \<open>AIMessage\<close>, \<open>ToolMessage\<close>) and an identifier that is optional: a message
  built from its content alone, as in \<open>SystemMessage(CIA_PROMPT)\<close>, has none.
\<close>

datatype role = System | Human | AI | Tool

record Message =
  mid :: "string option"
  role :: role
  content :: string

definition SystemMessage :: "string \<Rightarrow> Message" where
  "SystemMessage c = \<lparr>mid = None, role = System, content = c\<rparr>"

subsection \<open>The state and the structured output of the orchestrator\<close>

text \<open>
  \<^verbatim>\<open>
  @dataclass(kw_only=True)
  class State:
      messages: Annotated[list[BaseMessage], add_messages] = field(default_factory=list)
      analyses: Annotated[list[str], operator.add] = field(default_factory=list)
  \<close>
\<close>

record State =
  messages :: "Message list"
  analyses :: "string list"

record ResearchTask =
  topic :: string
  description :: string

text \<open>\<open>research_tasks: list[ResearchTask] | None\<close>: the schema admits an absent list.\<close>

record OrchestratorDecision =
  response :: string
  in_scope :: bool
  research_tasks :: "ResearchTask list option"

subsection \<open>Commands\<close>

text \<open>
  \<open>Send("worker", task)\<close> names a node and the payload handed to it. The \<open>goto\<close> of a
  \<open>Command\<close> is the marker \<open>END\<close>, one node name, or a list of \<open>Send\<close>s. The \<open>update\<close> is a
  Python dict from field names to values, kept here as the list of its items in insertion
  order; the notebook stores a bare string under \<open>"messages"\<close> and asks the worker to store
  a list under \<open>"analyses"\<close>.
\<close>

record Send =
  node :: string
  arg :: ResearchTask

datatype goto = Goto_END | Goto_node string | Goto_sends "Send list"

datatype upd_value = Text string | Texts "string list" | Msgs "Message list"

record Command =
  update :: "(string \<times> upd_value) list"
  goto :: goto

subsection \<open>The orchestrator node\<close>

definition CIA_PROMPT :: string where
  "CIA_PROMPT =
     [CHR 0x0A] @
     ''You are a Client Interface Agent (CIA) in a financial analysis system. You have multiple Research Agents with access to Bloomberg Financial News under your supervision.'' @
     [CHR 0x0A, CHR 0x0A] @
     ''Given a client request, provide a concise, polite and professional response regarding the feasibility of the request and the approach that will be taken to address it.'' @
     [CHR 0x0A, CHR 0x0A] @
     ''If the user'' @ [CHR 0x27] @ ''s request is addressable, create a short list of highly specific research topics that the Research Agents will investigate to fulfill the client'' @ [CHR 0x27] @ ''s request.'' @
     [CHR 0x0A]"

text \<open>
  \<^verbatim>\<open>
  def orchestrator_node(state: State) -> Command[Literal["worker", END]]:
      display(Markdown(f"**Client request received**: {state.messages[-1].content}"))
      messages = [SystemMessage(CIA_PROMPT), *state.messages]
      cia_output = cia_model.invoke(messages)
      display(Markdown(f"**CIA Response:** {cia_output.response}"))
      return Command(
          update={"messages": cia_output.response},
          goto=[Send("worker", task) for task in cia_output.research_tasks]
          if cia_output.in_scope
          else END,
      )
  \<close>
  The model \<open>cia_model\<close> is a module-level name the notebook leaves to be filled in; it is a
  parameter here. \<open>state.messages[-1]\<close> raises \<open>IndexError\<close> on an empty list. The
  conditional expression evaluates the comprehension only when \<open>in_scope\<close> holds, and
  iterating over \<open>None\<close> raises \<open>TypeError\<close>.
\<close>

definition orchestrator_node ::
  "(Message list \<Rightarrow> OrchestratorDecision) \<Rightarrow> State \<Rightarrow> error + Command" where
  "orchestrator_node cia_model state =
     (if messages state = [] then Inl IndexError
      else
        let msgs = SystemMessage CIA_PROMPT # messages state;
            cia_output = cia_model msgs
        in if in_scope cia_output
           then (case research_tasks cia_output of
                   None \<Rightarrow> Inl TypeError
                 | Some tasks \<Rightarrow>
                     Inr \<lparr>update = [(''messages'', Text (response cia_output))],
                          goto = Goto_sends (map (\<lambda>task. \<lparr>node = ''worker'', arg = task\<rparr>) tasks)\<rparr>)
           else Inr \<lparr>update = [(''messages'', Text (response cia_output))],
                     goto = Goto_END\<rparr>)"

text \<open>The worker branches a command spawns: one per \<open>Send\<close>, none for \<open>END\<close> or a node name.\<close>

fun sends :: "goto \<Rightarrow> Send list" where
  "sends (Goto_sends ss) = ss"
| "sends _ = []"

subsection \<open>The reducer of \<open>analyses\<close>\<close>

text \<open>\<open>operator.add\<close> on two lists is Python's list concatenation \<open>current + incoming\<close>.\<close>

definition operator_add :: "'a list \<Rightarrow> 'a list \<Rightarrow> 'a list" where
  "operator_add current incoming = current @ incoming"

subsection \<open>The reducer of \<open>messages\<close>\<close>

text \<open>
  Modelled from the spec: \<open>add_messages\<close> is imported from \<open>langgraph.graph.message\<close> and
  is not part of the repository; the specification describes it as \<open>appendOrReplaceById\<close>
  (section 4.1): for each item of \<open>incoming\<close>, in order, if its id matches an item
  already in the sequence, that item is replaced in place; otherwise the item is appended
  at the end.
\<close>

fun upsert :: "Message \<Rightarrow> Message list \<Rightarrow> Message list" where
  "upsert m [] = [m]"
| "upsert m (x # xs) = (if mid x = mid m then m # xs else x # upsert m xs)"

text \<open>
  Modelled from the spec: the reducer proper, which is not part of the repository
  either. A reducer that observes a malformed item, such as a message lacking an id,
  fails with \<open>ReducerError\<close> (section 4.1).
\<close>

definition appendOrReplaceById :: "Message list \<Rightarrow> Message list \<Rightarrow> error + Message list" where
  "appendOrReplaceById current incoming =
     (if list_ex (\<lambda>m. mid m = None) (current @ incoming) then Inl ReducerError
      else Inr (fold upsert incoming current))"

text \<open>
  The same merge read as one pass over each sequence: every item of \<open>current\<close> stays at its
  position, replaced by the incoming item that carries its id if there is one; the
  incoming items whose id \<open>current\<close> does not hold follow, in the order of \<open>incoming\<close>.
\<close>

definition replaced_by :: "Message list \<Rightarrow> Message \<Rightarrow> Message" where
  "replaced_by incoming a =
     (case find (\<lambda>b. mid b = mid a) incoming of Some b \<Rightarrow> b | None \<Rightarrow> a)"

definition replace_then_append :: "Message list \<Rightarrow> Message list \<Rightarrow> Message list" where
  "replace_then_append current incoming =
     map (replaced_by incoming) current
     @ filter (\<lambda>b. mid b \<notin> set (map mid current)) incoming"

subsection \<open>Merging an update into the state\<close>

text \<open>
  Modelled from the spec: the engine's merge phase (section 4.4, "Merge") is part of
  \<open>langgraph\<close>, not of the repository. An update is applied one field at a time through
  that field's reducer, as the \<open>State\<close> class declares them: \<open>add_messages\<close> for
  \<open>messages\<close>, \<open>operator.add\<close> for \<open>analyses\<close>; a field the schema does not declare is a
  \<open>SchemaError\<close>, a value that is not of the field's type a \<open>ReducerError\<close>. The notebook
  hands \<open>messages\<close> a bare string (\<open>update={"messages": cia_output.response}\<close> and
  \<open>app.invoke({"messages": request})\<close>); the message the library makes of a bare string
  is the parameter \<open>as_message\<close>, applied to each string when a list of them is given.
\<close>

definition merge_field ::
  "(string \<Rightarrow> Message) \<Rightarrow> State \<Rightarrow> string \<Rightarrow> upd_value \<Rightarrow> error + State" where
  "merge_field as_message s f v =
     (if f = ''messages'' then
        (case appendOrReplaceById (messages s)
                (case v of Msgs ms \<Rightarrow> ms
                         | Text t \<Rightarrow> [as_message t]
                         | Texts ts \<Rightarrow> map as_message ts) of
           Inl e \<Rightarrow> Inl e
         | Inr ms \<Rightarrow> Inr (s\<lparr>messages := ms\<rparr>))
      else if f = ''analyses'' then
        (case v of
           Texts ts \<Rightarrow> Inr (s\<lparr>analyses := operator_add (analyses s) ts\<rparr>)
         | _ \<Rightarrow> Inl ReducerError)
      else Inl SchemaError)"

text \<open>
  Modelled from the spec: the merge of a whole update, which is not part of the
  repository either: its fields one at a time, stopping at the first error.
\<close>

fun apply_update ::
  "(string \<Rightarrow> Message) \<Rightarrow> State \<Rightarrow> (string \<times> upd_value) list \<Rightarrow> error + State" where
  "apply_update as_message s [] = Inr s"
| "apply_update as_message s ((f, v) # u) =
     (case merge_field as_message s f v of
        Inl e \<Rightarrow> Inl e
      | Inr s' \<Rightarrow> apply_update as_message s' u)"

subsection \<open>The executor\<close>

text \<open>
  Modelled from the spec: the executor is part of \<open>langgraph\<close>, not of the repository. A
  node is a state node, which reads the whole state, or a task node, which reads the
  payload of the \<open>Send\<close> that spawned it (section 4.3). A compiled graph maps names to
  nodes and names its entry; a branch is a node name with its input; a run holds the
  current state and the branches pending, in the order in which their commands will be
  merged (section 3).
\<close>

datatype node_fn =
    State_node "State \<Rightarrow> error + Command"
  | Task_node "ResearchTask \<Rightarrow> error + Command"

datatype input = Full State | Task ResearchTask

record graph =
  nodes :: "string \<rightharpoonup> node_fn"
  entry :: string

record ExecutionRun =
  run_state :: State
  pending :: "(string \<times> input) list"

text \<open>
  Modelled from the spec: the Step phase of the executor (section 4.4), which is not part
  of the repository. Every pending branch is invoked with its own input. A name that
  resolves to no node, or to a node of the other kind, yields no command, which is
  reported as \<open>NodeExecutionError\<close>. A node that raises aborts the step with its error, and
  nothing is merged (section 5).
\<close>

fun invoke :: "graph \<Rightarrow> string \<times> input \<Rightarrow> error + Command" where
  "invoke g (n, Full s) =
     (case nodes g n of Some (State_node f) \<Rightarrow> f s | _ \<Rightarrow> Inl NodeExecutionError)"
| "invoke g (n, Task t) =
     (case nodes g n of Some (Task_node f) \<Rightarrow> f t | _ \<Rightarrow> Inl NodeExecutionError)"

fun collect :: "graph \<Rightarrow> (string \<times> input) list \<Rightarrow> error + Command list" where
  "collect g [] = Inr []"
| "collect g (b # bs) =
     (case invoke g b of
        Inl e \<Rightarrow> Inl e
      | Inr c \<Rightarrow> (case collect g bs of Inl e \<Rightarrow> Inl e | Inr cs \<Rightarrow> Inr (c # cs)))"

text \<open>
  Modelled from the spec: the Merge phase of the executor (section 4.4), which is not part
  of the repository. The updates of all collected commands are applied in the order of
  their branches.
\<close>

fun merge_all :: "(string \<Rightarrow> Message) \<Rightarrow> State \<Rightarrow> Command list \<Rightarrow> error + State" where
  "merge_all as_message s [] = Inr s"
| "merge_all as_message s (c # cs) =
     (case apply_update as_message s (update c) of
        Inl e \<Rightarrow> Inl e
      | Inr s' \<Rightarrow> merge_all as_message s' cs)"

text \<open>
  Modelled from the spec: the Route phase of the executor (section 4.4), which is not part
  of the repository. \<open>END\<close> closes the branch; a list of \<open>Send\<close>s spawns one task branch per
  entry, each with its own payload; a node name schedules that node on the merged state.
  Join policy: sibling branches that name the same successor admit it once, after all of
  them have been merged.
\<close>

fun fan_out :: "goto \<Rightarrow> (string \<times> input) list" where
  "fan_out (Goto_sends ss) = map (\<lambda>x. (node x, Task (arg x))) ss"
| "fan_out _ = []"

fun successor :: "goto \<Rightarrow> string list" where
  "successor (Goto_node n) = [n]"
| "successor _ = []"

definition route :: "State \<Rightarrow> Command list \<Rightarrow> (string \<times> input) list" where
  "route s cs =
     concat (map (\<lambda>c. fan_out (goto c)) cs)
     @ map (\<lambda>n. (n, Full s)) (remdups (concat (map (\<lambda>c. successor (goto c)) cs)))"

definition step ::
  "(string \<Rightarrow> Message) \<Rightarrow> graph \<Rightarrow> ExecutionRun \<Rightarrow> error + ExecutionRun" where
  "step as_message g r =
     (case collect g (pending r) of
        Inl e \<Rightarrow> Inl e
      | Inr cs \<Rightarrow>
          (case merge_all as_message (run_state r) cs of
             Inl e \<Rightarrow> Inl e
           | Inr s' \<Rightarrow> Inr \<lparr>run_state = s', pending = route s' cs\<rparr>))"

text \<open>
  Modelled from the spec: the Start phase of the executor (section 4.4), which is not part
  of the repository. The declared initial values (\<open>default_factory=list\<close> for both fields
  of \<open>State\<close>) are merged with the caller's seed through the same reducers; the entry node
  is the only pending branch.
\<close>

definition schema_initial :: State where
  "schema_initial = \<lparr>messages = [], analyses = []\<rparr>"

definition initial_run :: "graph \<Rightarrow> State \<Rightarrow> ExecutionRun" where
  "initial_run g s = \<lparr>run_state = s, pending = [(entry g, Full s)]\<rparr>"

definition start ::
  "(string \<Rightarrow> Message) \<Rightarrow> graph \<Rightarrow> (string \<times> upd_value) list \<Rightarrow> error + ExecutionRun" where
  "start as_message g seed =
     (case apply_update as_message schema_initial seed of
        Inl e \<Rightarrow> Inl e
      | Inr s \<Rightarrow> Inr (initial_run g s))"

text \<open>
  Modelled from the spec: the loop of the executor (section 4.4, "Repeat"), which is not
  part of the repository. Steps are taken until no branch is pending. A graph with a cycle
  may never get there, so the loop is partial: \<open>None\<close> is a run that does not end.
\<close>

partial_function (option) run_from ::
  "(string \<Rightarrow> Message) \<Rightarrow> graph \<Rightarrow> ExecutionRun \<Rightarrow> (error + State) option" where
  "run_from as_message g r =
     (if pending r = [] then Some (Inr (run_state r))
      else (case step as_message g r of
              Inl e \<Rightarrow> Some (Inl e)
            | Inr r' \<Rightarrow> run_from as_message g r'))"

declare run_from.simps [code]

text \<open>
  Modelled from the spec: \<open>app.invoke(seed)\<close>, the entry of the executor, which is not part
  of the repository: start, then run to the end.
\<close>

definition app_invoke ::
  "(string \<Rightarrow> Message) \<Rightarrow> graph \<Rightarrow> (string \<times> upd_value) list \<Rightarrow> (error + State) option" where
  "app_invoke as_message g seed =
     (case start as_message g seed of
        Inl e \<Rightarrow> Some (Inl e)
      | Inr r \<Rightarrow> run_from as_message g r)"

subsection \<open>The graph builder\<close>







subsection \<open>A task node's contribution\<close>



subsection \<open>Concrete inputs\<close>

definition client_request :: Message where
  "client_request = \<lparr>mid = Some ''m1'', role = Human, content = ''Define an investment strategy''\<rparr>"

definition request_state :: State where
  "request_state = \<lparr>messages = [client_request], analyses = []\<rparr>"

definition task_a :: ResearchTask where
  "task_a = \<lparr>topic = ''chips'', description = ''semiconductor outlook''\<rparr>"

definition task_b :: ResearchTask where
  "task_b = \<lparr>topic = ''cloud'', description = ''cloud revenue growth''\<rparr>"

text \<open>A model that answers every conversation with the same decision.\<close>

definition decides :: "OrchestratorDecision \<Rightarrow> Message list \<Rightarrow> OrchestratorDecision" where
  "decides d msgs = d"

definition msg :: "string \<Rightarrow> string \<Rightarrow> Message" where
  "msg i c = \<lparr>mid = Some i, role = AI, content = c\<rparr>"

definition as_human :: "string \<Rightarrow> Message" where
  "as_human t = \<lparr>mid = Some (''human-'' @ t), role = Human, content = t\<rparr>"




section \<open>Lemmas about the reducer of \<open>messages\<close>\<close>

lemma map_mid_upsert:
  "map mid (upsert m xs) = (if mid m \<in> set (map mid xs) then map mid xs else map mid xs @ [mid m])"
  by (induction xs) auto

lemma upsert_same_id:
  "mid c = mid m \<Longrightarrow> mid m \<in> set (map mid xs) \<Longrightarrow> upsert c (upsert m xs) = upsert c xs"
  by (induction xs) auto

lemma upsert_commute:
  "mid c \<noteq> mid m \<Longrightarrow> mid m \<in> set (map mid xs) \<Longrightarrow>
     upsert c (upsert m xs) = upsert m (upsert c xs)"
  by (induction xs) auto

lemma upsert_absorbed:
  "mid m \<in> set (map mid xs) \<Longrightarrow> mid m \<in> set (map mid B) \<Longrightarrow>
     fold upsert B (upsert m xs) = fold upsert B xs"
proof (induction B arbitrary: xs)
  case Nil
  then show ?case by simp
next
  case (Cons c B)
  show ?case
  proof (cases "mid c = mid m")
    case True
    with Cons.prems show ?thesis by (simp add: upsert_same_id)
  next
    case False
    with Cons.prems have inB: "mid m \<in> set (map mid B)" by auto
    have inx: "mid m \<in> set (map mid (upsert c xs))"
      using Cons.prems(1) by (simp add: map_mid_upsert)
    have "fold upsert (c # B) (upsert m xs) = fold upsert B (upsert m (upsert c xs))"
      using upsert_commute [OF False Cons.prems(1)] by simp
    also have "\<dots> = fold upsert B (upsert c xs)"
      using Cons.IH [OF inx inB] .
    finally show ?thesis by simp
  qed
qed

lemma upsert_fixed_step:
  "upsert m xs = xs \<Longrightarrow> mid c \<noteq> mid m \<Longrightarrow> upsert m (upsert c xs) = upsert c xs"
proof (induction xs)
  case Nil
  then show ?case by simp
next
  case (Cons x xs)
  show ?case
  proof (cases "mid x = mid m")
    case True
    with Cons.prems(1) have "x = m" by simp
    with Cons.prems(2) show ?thesis by simp
  next
    case False
    with Cons.prems(1) have "upsert m xs = xs" by simp
    then have "upsert m (upsert c xs) = upsert c xs"
      using Cons.prems(2) by (rule Cons.IH)
    with False Cons.prems(2) \<open>upsert m xs = xs\<close> show ?thesis by simp
  qed
qed

lemma upsert_idem: "upsert m (upsert m xs) = upsert m xs"
  by (induction xs) auto

lemma upsert_fixed_fold:
  "upsert m xs = xs \<Longrightarrow> mid m \<notin> set (map mid B) \<Longrightarrow>
     upsert m (fold upsert B xs) = fold upsert B xs"
proof (induction B arbitrary: xs)
  case Nil
  then show ?case by simp
next
  case (Cons c B)
  from Cons.prems(2) have ne: "mid c \<noteq> mid m" and notin: "mid m \<notin> set (map mid B)"
    by auto
  have "upsert m (upsert c xs) = upsert c xs"
    using Cons.prems(1) ne by (rule upsert_fixed_step)
  then have "upsert m (fold upsert B (upsert c xs)) = fold upsert B (upsert c xs)"
    using notin by (rule Cons.IH)
  then show ?case by simp
qed

lemma ids_upsert: "set (map mid xs) \<subseteq> set (map mid (upsert m xs))"
  by (auto simp: map_mid_upsert)

lemma ids_fold_upsert: "set (map mid xs) \<subseteq> set (map mid (fold upsert B xs))"
proof (induction B arbitrary: xs)
  case Nil
  then show ?case by simp
next
  case (Cons c B)
  have "set (map mid xs) \<subseteq> set (map mid (upsert c xs))" by (rule ids_upsert)
  also have "\<dots> \<subseteq> set (map mid (fold upsert B (upsert c xs)))" by (rule Cons.IH)
  finally show ?case by simp
qed

lemma fold_upsert_twice: "fold upsert B (fold upsert B A) = fold upsert B A"
proof (induction B arbitrary: A)
  case Nil
  then show ?case by simp
next
  case (Cons b B)
  let ?R = "fold upsert B (upsert b A)"
  have IH: "fold upsert B ?R = ?R" by (rule Cons.IH)
  show ?case
  proof (cases "mid b \<in> set (map mid B)")
    case True
    have "mid b \<in> set (map mid (upsert b A))" by (simp add: map_mid_upsert)
    then have "mid b \<in> set (map mid ?R)" using ids_fold_upsert by blast
    then have "fold upsert B (upsert b ?R) = fold upsert B ?R"
      using True by (rule upsert_absorbed)
    then show ?thesis using IH by simp
  next
    case False
    have "upsert b ?R = ?R"
      using upsert_idem False by (rule upsert_fixed_fold)
    then show ?thesis using IH by simp
  qed
qed

lemma upsert_seen:
  "distinct (map mid A) \<Longrightarrow> mid b \<in> set (map mid A) \<Longrightarrow>
     upsert b A = map (\<lambda>a. if mid a = mid b then b else a) A"
proof (induction A)
  case Nil
  then show ?case by simp
next
  case (Cons x A)
  show ?case
  proof (cases "mid x = mid b")
    case True
    with Cons.prems(1) have "\<forall>a\<in>set A. mid a \<noteq> mid b" by (force simp: image_iff)
    then have "map (\<lambda>a. if mid a = mid b then b else a) A = A"
      by (simp add: map_idI)
    with True show ?thesis by simp
  next
    case False
    with Cons show ?thesis by auto
  qed
qed

lemma upsert_unseen: "mid b \<notin> set (map mid A) \<Longrightarrow> upsert b A = A @ [b]"
  by (induction A) auto

lemma replaced_by_unseen:
  "mid a \<notin> set (map mid B) \<Longrightarrow> replaced_by B a = a"
proof -
  assume "mid a \<notin> set (map mid B)"
  then have "find (\<lambda>b. mid b = mid a) B = None"
    by (force simp: find_None_iff image_iff)
  then show ?thesis by (simp add: replaced_by_def)
qed

lemma replaced_by_Cons:
  "replaced_by (b # B) a = (if mid b = mid a then b else replaced_by B a)"
  by (simp add: replaced_by_def)

lemma fold_upsert_closed_form:
  "distinct (map mid A) \<Longrightarrow> distinct (map mid B) \<Longrightarrow>
     fold upsert B A = replace_then_append A B"
proof (induction B arbitrary: A)
  case Nil
  have "map (replaced_by []) A = A"
    by (simp add: replaced_by_def map_idI)
  then show ?case by (simp add: replace_then_append_def)
next
  case (Cons b B)
  from Cons.prems(2) have dB: "distinct (map mid B)" and bB: "mid b \<notin> set (map mid B)"
    by auto
  show ?case
  proof (cases "mid b \<in> set (map mid A)")
    case True
    let ?A' = "map (\<lambda>a. if mid a = mid b then b else a) A"
    have up: "upsert b A = ?A'" using Cons.prems(1) True by (rule upsert_seen)
    have ids: "map mid ?A' = map mid A" by (induction A) auto
    have dA': "distinct (map mid ?A')" using Cons.prems(1) by (simp only: ids)
    have "fold upsert (b # B) A = fold upsert B ?A'" using up by simp
    also have "\<dots> = replace_then_append ?A' B" using dA' dB by (rule Cons.IH)
    also have "\<dots> = replace_then_append A (b # B)"
    proof -
      have "map (replaced_by B) ?A' = map (replaced_by (b # B)) A"
        using bB by (auto simp: replaced_by_Cons replaced_by_unseen)
      moreover have "filter (\<lambda>b. mid b \<notin> set (map mid ?A')) B
                   = filter (\<lambda>b. mid b \<notin> set (map mid A)) (b # B)"
        using True by (simp only: ids) simp
      ultimately show ?thesis by (simp only: replace_then_append_def)
    qed
    finally show ?thesis .
  next
    case False
    have up: "upsert b A = A @ [b]" using False by (rule upsert_unseen)
    have dA': "distinct (map mid (A @ [b]))" using Cons.prems(1) False by simp
    have "fold upsert (b # B) A = fold upsert B (A @ [b])" using up by simp
    also have "\<dots> = replace_then_append (A @ [b]) B" using dA' dB by (rule Cons.IH)
    also have "\<dots> = replace_then_append A (b # B)"
    proof -
      have "map (replaced_by B) (A @ [b]) = map (replaced_by (b # B)) A @ [b]"
        using False bB by (auto simp: replaced_by_Cons replaced_by_unseen)
      moreover have "filter (\<lambda>c. mid c \<notin> set (map mid (A @ [b]))) B
                   = filter (\<lambda>c. mid c \<notin> set (map mid A)) B"
      proof (rule filter_cong [OF refl])
        fix c assume "c \<in> set B"
        then have "mid c \<in> set (map mid B)" by simp
        with bB have "mid c \<noteq> mid b" by metis
        then show "(mid c \<notin> set (map mid (A @ [b]))) = (mid c \<notin> set (map mid A))"
          by simp
      qed
      ultimately show ?thesis using False by (simp add: replace_then_append_def)
    qed
    finally show ?thesis .
  qed
qed

lemma set_upsert: "set (upsert m xs) \<subseteq> insert m (set xs)"
  by (induction xs) auto

lemma set_fold_upsert: "set (fold upsert B A) \<subseteq> set A \<union> set B"
proof (induction B arbitrary: A)
  case Nil
  then show ?case by simp
next
  case (Cons b B)
  have "set (fold upsert B (upsert b A)) \<subseteq> set (upsert b A) \<union> set B" by (rule Cons.IH)
  also have "\<dots> \<subseteq> insert b (set A) \<union> set B" using set_upsert [of b A] by blast
  finally show ?case by auto
qed

lemma ids_prefix_fold_upsert: "\<exists>zs. map mid (fold upsert B A) = map mid A @ zs"
proof (induction B arbitrary: A)
  case Nil
  then show ?case by simp
next
  case (Cons b B)
  obtain zs where zs: "map mid (fold upsert B (upsert b A)) = map mid (upsert b A) @ zs"
    using Cons.IH by blast
  show ?case
  proof (cases "mid b \<in> set (map mid A)")
    case True
    with zs show ?thesis by (simp add: map_mid_upsert)
  next
    case False
    with zs show ?thesis by (simp add: map_mid_upsert)
  qed
qed

lemma incoming_ids_fold_upsert: "set (map mid B) \<subseteq> set (map mid (fold upsert B A))"
proof (induction B arbitrary: A)
  case Nil
  then show ?case by simp
next
  case (Cons b B)
  have "mid b \<in> set (map mid (upsert b A))" by (simp add: map_mid_upsert)
  then have "mid b \<in> set (map mid (fold upsert B (upsert b A)))"
    using ids_fold_upsert by blast
  moreover have "set (map mid B) \<subseteq> set (map mid (fold upsert B (upsert b A)))"
    by (rule Cons.IH)
  ultimately show ?case by simp
qed

lemma appendOrReplaceById_wellformed:
  "\<not> list_ex (\<lambda>m. mid m = None) (A @ B) \<Longrightarrow>
     appendOrReplaceById A B = Inr (fold upsert B A)"
  by (simp add: appendOrReplaceById_def)

lemma upsert_in_place_or_end:
  "upsert b R =
     (if mid b \<in> set (map mid R)
      then R[length (takeWhile (\<lambda>x. mid x \<noteq> mid b) R) := b]
      else R @ [b])"
  by (induction R) auto

lemma appendOrReplaceById_snoc:
  assumes "\<not> list_ex (\<lambda>m. mid m = None) (A @ B)" and "mid b \<noteq> None"
  shows "appendOrReplaceById A (B @ [b]) = Inr (upsert b (fold upsert B A))"
proof -
  from assms have "\<not> list_ex (\<lambda>m. mid m = None) (A @ (B @ [b]))"
    by (simp add: list_ex_iff)
  then have "appendOrReplaceById A (B @ [b]) = Inr (fold upsert (B @ [b]) A)"
    by (rule appendOrReplaceById_wellformed)
  then show ?thesis by simp
qed

lemma appendOrReplaceById_malformed:
  "list_ex (\<lambda>m. mid m = None) (A @ B) \<Longrightarrow> appendOrReplaceById A B = Inl ReducerError"
  by (simp add: appendOrReplaceById_def)

lemma wellformed_result:
  assumes "\<not> list_ex (\<lambda>m. mid m = None) (A @ B)"
  shows "\<not> list_ex (\<lambda>m. mid m = None) (fold upsert B A @ B)"
proof -
  have "set (fold upsert B A @ B) \<subseteq> set (A @ B)"
    using set_fold_upsert [of B A] by auto
  with assms show ?thesis
    unfolding list_ex_iff by blast
qed

section \<open>Lemmas about the executor\<close>

lemma merge_field_analyses_frame:
  "merge_field h s ''messages'' v = Inr s' \<Longrightarrow> analyses s' = analyses s"
  by (auto simp: merge_field_def split: sum.splits)







section \<open>Theorems about the orchestrator node\<close>

text \<open>
  C9. When the decision has \<open>in_scope = False\<close>, \<open>orchestrator_node\<close> returns a command that
  goes to \<open>END\<close> and carries no \<open>Send\<close>, whatever \<open>research_tasks\<close> holds: a non-empty list
  spawns no worker and an absent list raises nothing. (The decision exists only when the
  node reached the model, that is when the state holds at least one message.)
\<close>

theorem orchestrator_out_of_scope:
  assumes "messages state \<noteq> []"
    and "in_scope (cia_model (SystemMessage CIA_PROMPT # messages state)) = False"
  shows "orchestrator_node cia_model state =
           Inr \<lparr>update = [(''messages'',
                   Text (response (cia_model (SystemMessage CIA_PROMPT # messages state))))],
                goto = Goto_END\<rparr>
         \<and> (\<forall>c. orchestrator_node cia_model state = Inr c \<longrightarrow> sends (goto c) = [])"
  using assms by (simp add: orchestrator_node_def Let_def)

theorem orchestrator_out_of_scope_witness:
  "messages request_state \<noteq> []
   \<and> in_scope (decides \<lparr>response = ''no'', in_scope = False, research_tasks = Some [task_a]\<rparr>
        (SystemMessage CIA_PROMPT # messages request_state)) = False
   \<and> orchestrator_node
        (decides \<lparr>response = ''no'', in_scope = False, research_tasks = Some [task_a]\<rparr>)
        request_state
      = Inr \<lparr>update = [(''messages'', Text ''no'')], goto = Goto_END\<rparr>
   \<and> orchestrator_node
        (decides \<lparr>response = ''no'', in_scope = False, research_tasks = None\<rparr>)
        request_state
      = Inr \<lparr>update = [(''messages'', Text ''no'')], goto = Goto_END\<rparr>"
  using orchestrator_out_of_scope
          [of request_state
              "decides \<lparr>response = ''no'', in_scope = False, research_tasks = Some [task_a]\<rparr>"]
        orchestrator_out_of_scope
          [of request_state
              "decides \<lparr>response = ''no'', in_scope = False, research_tasks = None\<rparr>"]
  by (simp add: request_state_def decides_def)

text \<open>
  C1, as stated, fails: with \<open>in_scope = True\<close> and an empty \<open>research_tasks\<close> list the node
  raises nothing. It returns a command that stores the response and carries an empty list
  of \<open>Send\<close>s.
\<close>

theorem orchestrator_empty_tasks_counterexample:
  "orchestrator_node
     (decides \<lparr>response = ''ok'', in_scope = True, research_tasks = Some []\<rparr>) request_state
     \<noteq> Inl MalformedDecisionError
   \<and> orchestrator_node
       (decides \<lparr>response = ''ok'', in_scope = True, research_tasks = Some []\<rparr>) request_state
     = Inr \<lparr>update = [(''messages'', Text ''ok'')], goto = Goto_sends []\<rparr>"
  by (simp add: orchestrator_node_def request_state_def decides_def Let_def)

text \<open>
  C1, amended. For a decision with \<open>in_scope = True\<close>: when \<open>research_tasks\<close> is the empty
  list, \<open>orchestrator_node\<close> returns a command whose update stores the response under
  \<open>messages\<close> and whose \<open>goto\<close> is the empty list of \<open>Send\<close>s (zero workers, no error); when
  \<open>research_tasks\<close> is absent, the node raises \<open>TypeError\<close> and returns no command, so
  there is no update and no branch.
\<close>

theorem orchestrator_in_scope_without_tasks:
  assumes "messages state \<noteq> []"
    and "in_scope (cia_model (SystemMessage CIA_PROMPT # messages state))"
  shows "(research_tasks (cia_model (SystemMessage CIA_PROMPT # messages state)) = Some [] \<longrightarrow>
            orchestrator_node cia_model state =
              Inr \<lparr>update = [(''messages'',
                      Text (response (cia_model (SystemMessage CIA_PROMPT # messages state))))],
                   goto = Goto_sends []\<rparr>)
         \<and> (research_tasks (cia_model (SystemMessage CIA_PROMPT # messages state)) = None \<longrightarrow>
            orchestrator_node cia_model state = Inl TypeError)"
  using assms by (simp add: orchestrator_node_def Let_def)

theorem orchestrator_in_scope_without_tasks_witness:
  "messages request_state \<noteq> []
   \<and> in_scope (decides \<lparr>response = ''ok'', in_scope = True, research_tasks = Some []\<rparr>
        (SystemMessage CIA_PROMPT # messages request_state))
   \<and> orchestrator_node
        (decides \<lparr>response = ''ok'', in_scope = True, research_tasks = Some []\<rparr>) request_state
      = Inr \<lparr>update = [(''messages'', Text ''ok'')], goto = Goto_sends []\<rparr>
   \<and> orchestrator_node
        (decides \<lparr>response = ''ok'', in_scope = True, research_tasks = None\<rparr>) request_state
      = Inl TypeError"
  using orchestrator_in_scope_without_tasks
          [of request_state
              "decides \<lparr>response = ''ok'', in_scope = True, research_tasks = Some []\<rparr>"]
        orchestrator_in_scope_without_tasks
          [of request_state
              "decides \<lparr>response = ''ok'', in_scope = True, research_tasks = None\<rparr>"]
  by (simp add: request_state_def decides_def)

text \<open>
  C10. Whenever \<open>orchestrator_node\<close> returns a command, in scope or not, the only field its
  update names is \<open>messages\<close>, and merging that update into any state leaves \<open>analyses\<close> as
  it was.
\<close>

theorem orchestrator_update_touches_messages_only:
  assumes "orchestrator_node cia_model s = Inr c"
  shows "map fst (update c) = [''messages'']
         \<and> (\<forall>h t t'. apply_update h t (update c) = Inr t' \<longrightarrow> analyses t' = analyses t)"
proof -
  let ?d = "cia_model (SystemMessage CIA_PROMPT # messages s)"
  from assms have u: "update c = [(''messages'', Text (response ?d))]"
    by (auto simp: orchestrator_node_def Let_def split: if_splits option.splits)
  have "analyses t' = analyses t" if "apply_update h t (update c) = Inr t'" for h t t'
  proof -
    from that have "merge_field h t ''messages'' (Text (response ?d)) = Inr t'"
      by (simp add: u split: sum.splits)
    then show ?thesis by (rule merge_field_analyses_frame)
  qed
  with u show ?thesis by simp
qed

theorem orchestrator_update_touches_messages_only_witness:
  "orchestrator_node
     (decides \<lparr>response = ''ok'', in_scope = True, research_tasks = Some [task_a, task_b]\<rparr>)
     request_state
   = Inr \<lparr>update = [(''messages'', Text ''ok'')],
          goto = Goto_sends [\<lparr>node = ''worker'', arg = task_a\<rparr>, \<lparr>node = ''worker'', arg = task_b\<rparr>]\<rparr>
   \<and> apply_update as_human (request_state\<lparr>analyses := [''kept'']\<rparr>) [(''messages'', Text ''ok'')]
       = Inr \<lparr>messages = [client_request, as_human ''ok''], analyses = [''kept'']\<rparr>
   \<and> analyses \<lparr>messages = [client_request, as_human ''ok''], analyses = [''kept'']\<rparr>
       = analyses (request_state\<lparr>analyses := [''kept'']\<rparr>)"
proof -
  have run: "orchestrator_node
     (decides \<lparr>response = ''ok'', in_scope = True, research_tasks = Some [task_a, task_b]\<rparr>)
     request_state
   = Inr \<lparr>update = [(''messages'', Text ''ok'')],
          goto = Goto_sends [\<lparr>node = ''worker'', arg = task_a\<rparr>, \<lparr>node = ''worker'', arg = task_b\<rparr>]\<rparr>"
    by (simp add: orchestrator_node_def request_state_def decides_def Let_def)
  have merged: "apply_update as_human (request_state\<lparr>analyses := [''kept'']\<rparr>)
                  [(''messages'', Text ''ok'')]
       = Inr \<lparr>messages = [client_request, as_human ''ok''], analyses = [''kept'']\<rparr>"
    by (simp add: merge_field_def appendOrReplaceById_def request_state_def
                  client_request_def as_human_def)
  from orchestrator_update_touches_messages_only [OF run] merged
  have "analyses \<lparr>messages = [client_request, as_human ''ok''], analyses = [''kept'']\<rparr>
       = analyses (request_state\<lparr>analyses := [''kept'']\<rparr>)"
    by (metis Command.select_convs(1))
  with run merged show ?thesis by blast
qed

section \<open>Theorems about the reducer of \<open>analyses\<close>\<close>

text \<open>
  C7, as stated, fails: "never commutative" says that no pair of inputs gives the same
  result when swapped, and a pair with an empty sequence does.
\<close>

theorem operator_add_commutes_counterexample:
  "operator_add [''report''] [] = operator_add [] [''report'']"
  by (simp add: operator_add_def)

text \<open>
  C7, amended. \<open>operator_add\<close> is associative; its result is \<open>current\<close> followed by
  \<open>incoming\<close>, every entry kept (no deduplication); it is not commutative in general (two
  distinct singletons do not commute), though it commutes on some pairs, such as any
  sequence with the empty one.
\<close>

theorem operator_add_assoc_verbatim:
  "operator_add (operator_add A B) C = operator_add A (operator_add B C)
   \<and> length (operator_add A B) = length A + length B
   \<and> take (length A) (operator_add A B) = A
   \<and> drop (length A) (operator_add A B) = B
   \<and> (x \<noteq> y \<longrightarrow> operator_add [x] [y] \<noteq> operator_add [y] [x])
   \<and> operator_add A [] = operator_add [] A"
  by (simp add: operator_add_def)

theorem operator_add_assoc_verbatim_witness:
  "operator_add (operator_add [''a''] [''a'']) [''b''] = [''a'', ''a'', ''b'']
   \<and> ''a'' \<noteq> ''b''
   \<and> operator_add [''a''] [''b''] \<noteq> operator_add [''b''] [''a'']"
  using operator_add_assoc_verbatim [of "[''a'']" "[''a'']" "[''b'']" "''a''" "''b''"]
  by (simp add: operator_add_def)

section \<open>Theorems about the reducer of \<open>messages\<close>\<close>

text \<open>
  C2. On messages that all carry an id, the reducer returns a sequence in which the items
  of \<open>current\<close> keep their positions and ids, every incoming id is present, and nothing
  but items of \<open>current\<close> and \<open>incoming\<close> occurs. One more incoming item either replaces,
  at its position, the item of the sequence so far that carries its id, or, its id being
  unseen, is appended at the end. When ids are unique in \<open>current\<close> and in \<open>incoming\<close>, the
  result is \<open>current\<close> with every item whose id is incoming replaced in place by the
  incoming item, followed by the incoming items with an unseen id in the order of
  \<open>incoming\<close>.
\<close>

theorem appendOrReplaceById_replaces_in_place_else_appends:
  assumes "\<not> list_ex (\<lambda>m. mid m = None) (A @ B)"
  shows "\<exists>R. appendOrReplaceById A B = Inr R
           \<and> length A \<le> length R
           \<and> map mid (take (length A) R) = map mid A
           \<and> set (map mid B) \<subseteq> set (map mid R)
           \<and> set R \<subseteq> set A \<union> set B
           \<and> (\<forall>b. mid b \<noteq> None \<longrightarrow>
                appendOrReplaceById A (B @ [b]) =
                  Inr (if mid b \<in> set (map mid R)
                       then R[length (takeWhile (\<lambda>x. mid x \<noteq> mid b) R) := b]
                       else R @ [b]))
           \<and> (distinct (map mid A) \<and> distinct (map mid B) \<longrightarrow>
                R = replace_then_append A B)"
proof -
  let ?R = "fold upsert B A"
  obtain zs where zs: "map mid ?R = map mid A @ zs"
    using ids_prefix_fold_upsert by blast
  have len: "length A \<le> length ?R"
  proof -
    have "length (map mid ?R) = length (map mid A) + length zs" by (simp only: zs length_append)
    then show ?thesis by simp
  qed
  have "take (length A) (map mid ?R) = map mid A" by (simp add: zs)
  then have pre: "map mid (take (length A) ?R) = map mid A" by (simp add: take_map)
  have closed: "distinct (map mid A) \<and> distinct (map mid B) \<longrightarrow>
                ?R = replace_then_append A B"
    using fold_upsert_closed_form [of A B] by simp
  have snoc: "\<forall>b. mid b \<noteq> None \<longrightarrow>
                appendOrReplaceById A (B @ [b]) =
                  Inr (if mid b \<in> set (map mid ?R)
                       then ?R[length (takeWhile (\<lambda>x. mid x \<noteq> mid b) ?R) := b]
                       else ?R @ [b])"
  proof (intro allI impI)
    fix b :: Message
    assume "mid b \<noteq> None"
    with assms have "appendOrReplaceById A (B @ [b]) = Inr (upsert b ?R)"
      by (rule appendOrReplaceById_snoc)
    then show "appendOrReplaceById A (B @ [b]) =
                  Inr (if mid b \<in> set (map mid ?R)
                       then ?R[length (takeWhile (\<lambda>x. mid x \<noteq> mid b) ?R) := b]
                       else ?R @ [b])"
      by (simp only: upsert_in_place_or_end)
  qed
  show ?thesis
  proof (intro exI [of _ ?R] conjI)
    show "appendOrReplaceById A B = Inr ?R"
      using assms by (rule appendOrReplaceById_wellformed)
    show "length A \<le> length ?R" by (rule len)
    show "map mid (take (length A) ?R) = map mid A" by (rule pre)
    show "set (map mid B) \<subseteq> set (map mid ?R)" by (rule incoming_ids_fold_upsert)
    show "set ?R \<subseteq> set A \<union> set B" by (rule set_fold_upsert)
    show "\<forall>b. mid b \<noteq> None \<longrightarrow>
                appendOrReplaceById A (B @ [b]) =
                  Inr (if mid b \<in> set (map mid ?R)
                       then ?R[length (takeWhile (\<lambda>x. mid x \<noteq> mid b) ?R) := b]
                       else ?R @ [b])"
      by (rule snoc)
    show "distinct (map mid A) \<and> distinct (map mid B) \<longrightarrow> ?R = replace_then_append A B"
      by (rule closed)
  qed
qed

theorem appendOrReplaceById_replaces_in_place_else_appends_witness:
  "\<not> list_ex (\<lambda>m. mid m = None)
        ([msg ''1'' ''a'', msg ''2'' ''b''] @ [msg ''2'' ''B'', msg ''3'' ''c''])
   \<and> distinct (map mid [msg ''1'' ''a'', msg ''2'' ''b''])
   \<and> distinct (map mid [msg ''2'' ''B'', msg ''3'' ''c''])
   \<and> mid (msg ''1'' ''A'') \<noteq> None
   \<and> appendOrReplaceById [msg ''1'' ''a'', msg ''2'' ''b''] [msg ''2'' ''B'', msg ''3'' ''c'']
       = Inr [msg ''1'' ''a'', msg ''2'' ''B'', msg ''3'' ''c'']"
  using appendOrReplaceById_replaces_in_place_else_appends
          [of "[msg ''1'' ''a'', msg ''2'' ''b'']" "[msg ''2'' ''B'', msg ''3'' ''c'']"]
  by (simp add: msg_def replace_then_append_def replaced_by_def)

text \<open>
  C8. Applying the reducer a second time with the same incoming sequence changes nothing:
  the result of the first application is returned again (and a \<open>ReducerError\<close> of the
  first application is the outcome of both).
\<close>

theorem appendOrReplaceById_idempotent:
  "(case appendOrReplaceById A B of
      Inl e \<Rightarrow> Inl e
    | Inr R \<Rightarrow> appendOrReplaceById R B) = appendOrReplaceById A B"
proof (cases "list_ex (\<lambda>m. mid m = None) (A @ B)")
  case True
  then show ?thesis by (simp add: appendOrReplaceById_malformed)
next
  case False
  have "appendOrReplaceById (fold upsert B A) B = Inr (fold upsert B (fold upsert B A))"
    using wellformed_result [OF False] by (rule appendOrReplaceById_wellformed)
  then show ?thesis
    using appendOrReplaceById_wellformed [OF False] by (simp add: fold_upsert_twice)
qed

theorem appendOrReplaceById_idempotent_witness:
  "appendOrReplaceById [msg ''1'' ''a'', msg ''2'' ''b''] [msg ''2'' ''B'', msg ''3'' ''c'']
     = Inr [msg ''1'' ''a'', msg ''2'' ''B'', msg ''3'' ''c'']
   \<and> appendOrReplaceById [msg ''1'' ''a'', msg ''2'' ''B'', msg ''3'' ''c'']
        [msg ''2'' ''B'', msg ''3'' ''c'']
     = Inr [msg ''1'' ''a'', msg ''2'' ''B'', msg ''3'' ''c'']"
  using appendOrReplaceById_idempotent
          [of "[msg ''1'' ''a'', msg ''2'' ''b'']" "[msg ''2'' ''B'', msg ''3'' ''c'']"]
  by (simp add: appendOrReplaceById_def msg_def)

section \<open>Theorems about the run\<close>

text \<open>
  C6. The run starts from the declared initial values merged with the caller's seed by
  \<open>apply_update\<close>, the merge every update goes through. A seed that holds the client's
  request under \<open>messages\<close>, as a bare string or as a message, gives a state whose
  \<open>messages\<close> has that request as its first and only entry and whose \<open>analyses\<close> is empty.
\<close>

theorem start_merges_seed_with_reducers:
  "start h g seed =
     (case apply_update h \<lparr>messages = [], analyses = []\<rparr> seed of
        Inl e \<Rightarrow> Inl e
      | Inr s \<Rightarrow> Inr \<lparr>run_state = s, pending = [(entry g, Full s)]\<rparr>)
   \<and> (mid (h request) \<noteq> None \<longrightarrow>
        start h g [(''messages'', Text request)] =
          Inr (initial_run g \<lparr>messages = [h request], analyses = []\<rparr>))
   \<and> (mid m \<noteq> None \<longrightarrow>
        start h g [(''messages'', Msgs [m])] =
          Inr (initial_run g \<lparr>messages = [m], analyses = []\<rparr>))"
  by (auto simp: start_def schema_initial_def initial_run_def merge_field_def
                 appendOrReplaceById_def split: sum.splits)

theorem start_merges_seed_with_reducers_witness:
  "mid (as_human ''Define an investment strategy'') \<noteq> None
   \<and> mid client_request \<noteq> None
   \<and> start as_human \<lparr>nodes = Map.empty, entry = ''orchestrator''\<rparr>
        [(''messages'', Text ''Define an investment strategy'')]
      = Inr (initial_run \<lparr>nodes = Map.empty, entry = ''orchestrator''\<rparr>
               \<lparr>messages = [as_human ''Define an investment strategy''], analyses = []\<rparr>)
   \<and> start as_human \<lparr>nodes = Map.empty, entry = ''orchestrator''\<rparr>
        [(''messages'', Msgs [client_request])]
      = Inr (initial_run \<lparr>nodes = Map.empty, entry = ''orchestrator''\<rparr>
               \<lparr>messages = [client_request], analyses = []\<rparr>)"
  using start_merges_seed_with_reducers
          [of as_human "\<lparr>nodes = Map.empty, entry = ''orchestrator''\<rparr>" "[]"
              "''Define an investment strategy''" client_request]
  by (simp add: as_human_def client_request_def)

text \<open>
  C3. From every initial state, when the entry node returns a command that goes to \<open>END\<close>,
  the run ends with the initial state merged once with that command's update, and the
  step leaves no branch pending.
\<close>

theorem terminal_entry_merges_once:
  assumes "nodes g (entry g) = Some (State_node f)"
    and "f s = Inr c"
    and "goto c = Goto_END"
  shows "run_from h g (initial_run g s) = Some (apply_update h s (update c))
         \<and> (\<forall>s'. apply_update h s (update c) = Inr s' \<longrightarrow>
               step h g (initial_run g s) = Inr \<lparr>run_state = s', pending = []\<rparr>)"
proof -
  have col: "collect g [(entry g, Full s)] = Inr [c]"
    using assms(1,2) by simp
  have rt: "route s' [c] = []" for s'
    using assms(3) by (simp add: route_def)
  have st: "step h g (initial_run g s) =
              (case apply_update h s (update c) of
                 Inl e \<Rightarrow> Inl e
               | Inr s' \<Rightarrow> Inr \<lparr>run_state = s', pending = []\<rparr>)"
    by (simp add: step_def col rt initial_run_def del: collect.simps split: sum.splits)
  have "run_from h g (initial_run g s) = Some (apply_update h s (update c))"
  proof (cases "apply_update h s (update c)")
    case (Inl e)
    then show ?thesis
      by (subst run_from.simps) (simp add: st [unfolded initial_run_def] initial_run_def)
  next
    case (Inr s')
    have "run_from h g \<lparr>run_state = s', pending = []\<rparr> = Some (Inr s')"
      by (subst run_from.simps) simp
    with Inr show ?thesis
      by (subst run_from.simps) (simp add: st [unfolded initial_run_def] initial_run_def)
  qed
  with st show ?thesis by simp
qed

theorem terminal_entry_merges_once_witness:
  "run_from as_human
     \<lparr>nodes = [''orchestrator'' \<mapsto> State_node (orchestrator_node
                 (decides \<lparr>response = ''no'', in_scope = False, research_tasks = None\<rparr>))],
      entry = ''orchestrator''\<rparr>
     (initial_run
        \<lparr>nodes = [''orchestrator'' \<mapsto> State_node (orchestrator_node
                    (decides \<lparr>response = ''no'', in_scope = False, research_tasks = None\<rparr>))],
         entry = ''orchestrator''\<rparr>
        request_state)
   = Some (Inr \<lparr>messages = [client_request, as_human ''no''], analyses = []\<rparr>)"
proof -
  let ?f = "orchestrator_node (decides \<lparr>response = ''no'', in_scope = False, research_tasks = None\<rparr>)"
  let ?g = "\<lparr>nodes = [''orchestrator'' \<mapsto> State_node ?f], entry = ''orchestrator''\<rparr>"
  let ?c = "\<lparr>update = [(''messages'', Text ''no'')], goto = Goto_END\<rparr>"
  have 1: "nodes ?g (entry ?g) = Some (State_node ?f)" by simp
  have 2: "?f request_state = Inr ?c"
    by (simp add: orchestrator_node_def decides_def request_state_def Let_def)
  have 3: "goto ?c = Goto_END" by simp
  have 4: "apply_update as_human request_state (update ?c)
           = Inr \<lparr>messages = [client_request, as_human ''no''], analyses = []\<rparr>"
    by (simp add: merge_field_def appendOrReplaceById_def request_state_def
                  client_request_def as_human_def)
  from terminal_entry_merges_once [OF 1 2 3, of as_human] 4
  show ?thesis by simp
qed



section \<open>Theorems about the graph builder\<close>




end
